theory Spec2Isabelle
  imports Complex_Main "HOL-Library.Word" "HOL-Library.Sublist"
begin

unbundle bit_operations_syntax

section \<open>Strings\<close>

text \<open>
  A JavaScript string is a sequence of UTF-16 code units. A code unit is a 16-bit word,
  a string is a list of them. \<open>js\<close> turns an ASCII literal into such a string.
\<close>

type_synonym jschar = "16 word"
type_synonym jsstring = "jschar list"

definition js :: "string \<Rightarrow> jsstring" where
  "js s = map of_char s"

definition DQUOTE :: jschar where "DQUOTE = 0x22"
definition COMMA :: jschar where "COMMA = 0x2C"
definition LF :: jschar where "LF = 0x0A"
definition CR :: jschar where "CR = 0x0D"

text \<open>
  The code units that \<open>String.prototype.trim\<close> removes and that \<open>\s\<close> matches in a
  regular expression: the WhiteSpace and LineTerminator productions of ECMAScript
  (TAB, LF, VT, FF, CR, SP, NBSP, U+1680, U+2000 to U+200A, U+2028, U+2029, U+202F,
  U+205F, U+3000, U+FEFF).
\<close>

definition isWhiteSpace :: "jschar \<Rightarrow> bool" where
  "isWhiteSpace c \<longleftrightarrow>
     c = 0x09 \<or> c = 0x0A \<or> c = 0x0B \<or> c = 0x0C \<or> c = 0x0D \<or> c = 0x20 \<or> c = 0xA0
     \<or> c = 0x1680 \<or> (0x2000 \<le> c \<and> c \<le> 0x200A) \<or> c = 0x2028 \<or> c = 0x2029
     \<or> c = 0x202F \<or> c = 0x205F \<or> c = 0x3000 \<or> c = 0xFEFF"

definition trimStart :: "jsstring \<Rightarrow> jsstring" where
  "trimStart s = dropWhile isWhiteSpace s"

definition trimEnd :: "jsstring \<Rightarrow> jsstring" where
  "trimEnd s = rev (dropWhile isWhiteSpace (rev s))"

definition trim :: "jsstring \<Rightarrow> jsstring" where
  "trim s = trimEnd (trimStart s)"

text \<open>\<open>s[i]\<close>: the code unit at index \<open>i\<close>, \<open>undefined\<close> (here \<open>None\<close>) out of range.\<close>

definition charAt :: "jsstring \<Rightarrow> nat \<Rightarrow> jschar option" where
  "charAt s i = (if i < length s then Some (s ! i) else None)"

section \<open>parseCsv\<close>

text \<open>
  The variables of the scanning loop of \<open>parseCsv\<close>. \<open>push\<close> appends at the end.
\<close>

record csv_state =
  rows :: "jsstring list list"
  row :: "jsstring list"
  field :: jsstring
  inQuotes :: bool

text \<open>
  The \<open>for\<close> loop over the text, one call per iteration: the first argument is the text
  from index \<open>i\<close> on, \<open>c\<close> is \<open>text[i]\<close> and \<open>charAt cs 0\<close> is \<open>next = text[i + 1]\<close>.
  The extra \<open>i++\<close> of the doubled-quote branch skips one more code unit.
\<close>

fun scanCsv :: "jsstring \<Rightarrow> csv_state \<Rightarrow> csv_state" where
  "scanCsv [] st = st"
| "scanCsv (c # cs) st =
     (if inQuotes st then
        (if c = DQUOTE \<and> charAt cs 0 = Some DQUOTE then
           scanCsv (tl cs) (st\<lparr>field := field st @ [DQUOTE]\<rparr>)
         else if c = DQUOTE then
           scanCsv cs (st\<lparr>inQuotes := False\<rparr>)
         else
           scanCsv cs (st\<lparr>field := field st @ [c]\<rparr>))
      else
        (if c = DQUOTE then
           scanCsv cs (st\<lparr>inQuotes := True\<rparr>)
         else if c = COMMA then
           scanCsv cs (st\<lparr>row := row st @ [field st], field := []\<rparr>)
         else if c = LF then
           scanCsv cs (st\<lparr>rows := rows st @ [row st @ [field st]], row := [], field := []\<rparr>)
         else if c = CR then
           scanCsv cs st
         else
           scanCsv cs (st\<lparr>field := field st @ [c]\<rparr>)))"

definition csv_init :: csv_state where
  "csv_init = \<lparr>rows = [], row = [], field = [], inQuotes = False\<rparr>"

text \<open>After the loop: the last field is flushed, then every cell is trimmed.\<close>

definition flushCsv :: "csv_state \<Rightarrow> jsstring list list" where
  "flushCsv st =
     (if field st \<noteq> [] \<or> row st \<noteq> [] then rows st @ [row st @ [field st]] else rows st)"

definition parseCsv :: "jsstring \<Rightarrow> jsstring list list" where
  "parseCsv text = map (map trim) (flushCsv (scanCsv text csv_init))"

subsection \<open>Notions used to state properties of the parser\<close>

text \<open>
  The code units of a text that lie inside a quoted field and are content there: what the
  scanner appends to a field while \<open>inQuotes\<close> holds. The flag is the quoting state in
  which the text is entered.
\<close>

fun quotedChars :: "jsstring \<Rightarrow> bool \<Rightarrow> jsstring" where
  "quotedChars [] q = []"
| "quotedChars (c # cs) q =
     (if q then
        (if c = DQUOTE \<and> charAt cs 0 = Some DQUOTE then DQUOTE # quotedChars (tl cs) True
         else if c = DQUOTE then quotedChars cs False
         else c # quotedChars cs True)
      else
        (if c = DQUOTE then quotedChars cs True else quotedChars cs False))"

text \<open>A text has a doubled quote when two quote characters are adjacent in it.\<close>

fun hasDoubledQuote :: "jsstring \<Rightarrow> bool" where
  "hasDoubledQuote (c # d # cs) = ((c = DQUOTE \<and> d = DQUOTE) \<or> hasDoubledQuote (d # cs))"
| "hasDoubledQuote _ = False"

text \<open>All code units held in the cells of a scanner state.\<close>

definition cellsOf :: "csv_state \<Rightarrow> jschar set" where
  "cellsOf st = set (field st) \<union> \<Union>(set ` set (row st)) \<union> \<Union>(set ` \<Union>(set ` set (rows st)))"

section \<open>Numbers\<close>

text \<open>
  A JavaScript Number. Floating point is outside this embedding: a finite Number is stood
  for by the exact rational that its decimal literal denotes, so the rounding of a literal
  to the nearest double, the overflow of a literal beyond the double range to \<open>Infinity\<close>
  and the sign of zero are not modelled. \<open>NaN\<close> and the two infinities are values of their
  own, as \<open>Number.isFinite\<close> tells them apart.
\<close>

datatype jsnum = Num rat | NaN | PosInfinity | NegInfinity

definition isFinite :: "jsnum \<Rightarrow> bool" where
  "isFinite v = (case v of Num _ \<Rightarrow> True | _ \<Rightarrow> False)"

text \<open>\<open>a === b\<close> on Numbers: \<open>NaN\<close> equals nothing, itself included.\<close>

definition strictEquals :: "jsnum \<Rightarrow> jsnum \<Rightarrow> bool" where
  "strictEquals a b \<longleftrightarrow> a \<noteq> NaN \<and> b \<noteq> NaN \<and> a = b"

definition MINUS :: jschar where "MINUS = 0x2D"
definition PLUS :: jschar where "PLUS = 0x2B"
definition DOT :: jschar where "DOT = 0x2E"
definition PERCENT :: jschar where "PERCENT = 0x25"

text \<open>\<open>\d\<close> and \<open>[0-9]\<close>: the ten ASCII digits.\<close>

definition isDigit :: "jschar \<Rightarrow> bool" where
  "isDigit c \<longleftrightarrow> 0x30 \<le> c \<and> c \<le> 0x39"

definition digitValue :: "jschar \<Rightarrow> nat" where
  "digitValue c = unat c - 48"

definition digitsValue :: "jsstring \<Rightarrow> nat" where
  "digitsValue ds = foldl (\<lambda>n c. 10 * n + digitValue c) 0 ds"

text \<open>
  \<open>parseInt(s, 10)\<close> of ECMAScript: leading white space is skipped, one sign is read, then
  the longest run of digits; no digit gives \<open>NaN\<close>.
\<close>

definition parseInt10 :: "jsstring \<Rightarrow> jsnum" where
  "parseInt10 s =
     (let t = trimStart s;
          neg = (charAt t 0 = Some MINUS);
          u = (if charAt t 0 = Some MINUS \<or> charAt t 0 = Some PLUS then tl t else t);
          ds = takeWhile isDigit u
      in if ds = [] then NaN
         else Num (if neg then - of_nat (digitsValue ds) else of_nat (digitsValue ds)))"

text \<open>
  The exponent part of a decimal literal at the head of a string: \<open>e\<close> or \<open>E\<close>, one optional
  sign, one or more digits. Anything else is no exponent part, and the exponent is 0.
\<close>

definition exponentPart :: "jsstring \<Rightarrow> int" where
  "exponentPart r =
     (case r of
        [] \<Rightarrow> 0
      | c # r' \<Rightarrow>
          if c = 0x65 \<or> c = 0x45 then
            (let eneg = (charAt r' 0 = Some MINUS);
                 r'' = (if charAt r' 0 = Some MINUS \<or> charAt r' 0 = Some PLUS then tl r' else r');
                 ds = takeWhile isDigit r''
             in if ds = [] then 0
                else if eneg then - int (digitsValue ds) else int (digitsValue ds))
          else 0)"

text \<open>
  \<open>parseFloat(s)\<close> of ECMAScript: leading white space is skipped and the longest prefix
  that is a StrDecimalLiteral is read: one optional sign, then \<open>Infinity\<close>, or digits with
  an optional point and fraction digits (digits on at least one side of the point) and an
  optional exponent part. No such prefix gives \<open>NaN\<close>; what follows the prefix is ignored.
\<close>

definition parseFloat :: "jsstring \<Rightarrow> jsnum" where
  "parseFloat s =
     (let t = trimStart s;
          neg = (charAt t 0 = Some MINUS);
          u = (if charAt t 0 = Some MINUS \<or> charAt t 0 = Some PLUS then tl t else t)
      in if prefix (js ''Infinity'') u then (if neg then NegInfinity else PosInfinity)
         else
           (let ip = takeWhile isDigit u;
                r1 = dropWhile isDigit u;
                hasDot = (charAt r1 0 = Some DOT);
                fp = (if hasDot then takeWhile isDigit (tl r1) else []);
                r2 = (if hasDot then dropWhile isDigit (tl r1) else r1)
            in if ip = [] \<and> fp = [] then NaN
               else
                 (let e = exponentPart r2;
                      m = of_nat (digitsValue ip) + of_nat (digitsValue fp) / 10 ^ length fp;
                      v = (if 0 \<le> e then m * 10 ^ nat e else m / 10 ^ nat (- e))
                  in Num (if neg then - v else v))))"

section \<open>Cell coercion\<close>

text \<open>
  A cell handed to a coercion function is a string, or \<open>undefined\<close> when the row is too
  short: \<open>None\<close>.

  \<open>isIntegerCell\<close>: the test \<open>/^[0-9]+$/\<close> on the trimmed value.
\<close>

definition isIntegerCell :: "jsstring \<Rightarrow> bool" where
  "isIntegerCell v = (let t = trim v in t \<noteq> [] \<and> list_all isDigit t)"

text \<open>
  The match of \<open>/^(-?\d+(?:\.\d+)?)\s*%?$/\<close> against a string, giving capture group 1.
  Every quantifier of this expression is followed by something that cannot start with what
  it repeats, so the greedy choice is the only one that can succeed: an optional minus
  sign, all digits that follow, a point with all digits that follow when at least one
  does, all white space, one optional percent sign, and then the string must be over.
\<close>

definition matchPercent :: "jsstring \<Rightarrow> jsstring option" where
  "matchPercent s =
     (let sign = (if charAt s 0 = Some MINUS then [MINUS] else []);
          r0 = (if charAt s 0 = Some MINUS then tl s else s);
          ip = takeWhile isDigit r0;
          r1 = dropWhile isDigit r0;
          hasFrac = (charAt r1 0 = Some DOT \<and> takeWhile isDigit (tl r1) \<noteq> []);
          frac = (if hasFrac then DOT # takeWhile isDigit (tl r1) else []);
          r2 = (if hasFrac then dropWhile isDigit (tl r1) else r1);
          r3 = dropWhile isWhiteSpace r2;
          r4 = (if charAt r3 0 = Some PERCENT then tl r3 else r3)
      in if ip \<noteq> [] \<and> r4 = [] then Some (sign @ ip @ frac) else None)"

definition parsePercentCell :: "jsstring option \<Rightarrow> jsnum \<Rightarrow> jsnum" where
  "parsePercentCell cell fallback =
     (case cell of
        None \<Rightarrow> fallback
      | Some c \<Rightarrow>
          (let s = trim c in
           if s = [] then fallback
           else
             (case matchPercent s of
                None \<Rightarrow> fallback
              | Some m \<Rightarrow> (let v = parseFloat m in if isFinite v then v else fallback))))"

definition parseNumberCell :: "jsstring option \<Rightarrow> jsnum \<Rightarrow> jsnum" where
  "parseNumberCell cell fallback =
     (case cell of
        None \<Rightarrow> fallback
      | Some c \<Rightarrow>
          (let s = trim c in
           if s = [] then fallback
           else (let v = parseFloat s in if isFinite v then v else fallback)))"

text \<open>
  \<open>isNavigableUrl\<close>. The expression \<open>/^(https?:\/\/|mailto:)/i\<close> holds ASCII characters
  only. Under the flag \<open>i\<close> (without \<open>u\<close>) a code unit of the input is compared after
  upper-casing, and the upper-casing of a code unit outside ASCII is never taken when it
  would land inside ASCII: a letter of the expression matches its two ASCII cases and
  nothing else, every other character matches itself.
\<close>

definition toUpperAscii :: "jschar \<Rightarrow> jschar" where
  "toUpperAscii c = (if 0x61 \<le> c \<and> c \<le> 0x7A then c - 0x20 else c)"

text \<open>
  A literal of the expression matched at the head of a string, ignoring case: the rest of
  the string when it matches.
\<close>

fun matchIgnoreCase :: "jsstring \<Rightarrow> jsstring \<Rightarrow> jsstring option" where
  "matchIgnoreCase [] s = Some s"
| "matchIgnoreCase (p # ps) [] = None"
| "matchIgnoreCase (p # ps) (c # cs) =
     (if toUpperAscii c = toUpperAscii p then matchIgnoreCase ps cs else None)"

text \<open>
  The first alternative is \<open>http\<close>, an optional \<open>s\<close> (tried first with, then without),
  then \<open>://\<close>; the second is \<open>mailto:\<close>.
\<close>

definition isNavigableUrl :: "jsstring \<Rightarrow> bool" where
  "isNavigableUrl s =
     (if s = [] then False
      else
        (let t = trim s in
           (case matchIgnoreCase (js ''http'') t of
              None \<Rightarrow> False
            | Some r \<Rightarrow>
                (case matchIgnoreCase (js ''s'') r of
                   None \<Rightarrow> False
                 | Some r' \<Rightarrow> matchIgnoreCase (js ''://'') r' \<noteq> None)
                \<or> matchIgnoreCase (js ''://'') r \<noteq> None)
           \<or> matchIgnoreCase (js ''mailto:'') t \<noteq> None))"

subsection \<open>Notions used to state properties of the coercions\<close>

text \<open>
  A string begins with a prefix, case-insensitively: it is at least as long, and its head
  of that length, with the ASCII capitals lowered, is the prefix. The prefix is given in
  lower case.
\<close>

definition toLowerAscii :: "jschar \<Rightarrow> jschar" where
  "toLowerAscii c = (if 0x41 \<le> c \<and> c \<le> 0x5A then c + 0x20 else c)"

definition startsWithIgnoreCase :: "jsstring \<Rightarrow> jsstring \<Rightarrow> bool" where
  "startsWithIgnoreCase p t \<longleftrightarrow> length p \<le> length t \<and> map toLowerAscii (take (length p) t) = p"





section \<open>rowsToSections\<close>

text \<open>
  The objects built by \<open>rowsToSections\<close>. The field \<open>id\<close> of a section is \<open>id_num\<close> here,
  the fields \<open>x\<close> and \<open>y\<close> of an item are \<open>x_coord\<close> and \<open>y_coord\<close>.
\<close>

record item =
  name :: jsstring
  linkOrText :: jsstring
  isUrl :: bool
  x_coord :: jsnum
  y_coord :: jsnum
  color :: jsstring
  radius :: jsnum

record section_obj =
  id_num :: jsnum
  imageUrl :: jsstring
  title :: jsstring
  subtitle :: jsstring
  scalePercent :: jsnum
  titleYOffsetPx :: jsnum
  items :: "item list"

text \<open>\<open>r[i]\<close> on a row: \<open>undefined\<close> (here \<open>None\<close>) beyond its end. \<open>v ?? d\<close> is \<open>orElse v d\<close>.\<close>

definition cellAt :: "jsstring list \<Rightarrow> nat \<Rightarrow> jsstring option" where
  "cellAt r i = (if i < length r then Some (r ! i) else None)"

definition orElse :: "'a option \<Rightarrow> 'a \<Rightarrow> 'a" where
  "orElse v d = (case v of None \<Rightarrow> d | Some w \<Rightarrow> w)"

text \<open>
  The line terminators of ECMAScript, which \<open>.\<close> does not match in a regular expression
  without the flag \<open>s\<close>: LF, CR, U+2028, U+2029.
\<close>

definition isLineTerminator :: "jschar \<Rightarrow> bool" where
  "isLineTerminator c \<longleftrightarrow> c = 0x0A \<or> c = 0x0D \<or> c = 0x2028 \<or> c = 0x2029"

text \<open>
  \<open>s.replace(/^"(.*)"$/, "$1")\<close>. The expression is anchored at both ends (no flag \<open>m\<close>), so
  it matches the whole string or nothing: the string starts with a quote, ends with another
  quote, and no line terminator stands between the two. The match is replaced by what
  stands between them; a string that does not match is returned as it is.
\<close>

definition stripOuterQuotes :: "jsstring \<Rightarrow> jsstring" where
  "stripOuterQuotes s =
     (if 2 \<le> length s \<and> hd s = DQUOTE \<and> last s = DQUOTE
         \<and> list_all (\<lambda>c. \<not> isLineTerminator c) (butlast (tl s))
      then butlast (tl s) else s)"

text \<open>
  The state of the loop of \<open>rowsToSections\<close>: the array \<open>sections\<close>, and \<open>current\<close>, which
  is \<open>null\<close> or refers to an object that is also an element of \<open>sections\<close>. The reference is
  the index of that element, so that a \<open>push\<close> on \<open>current.items\<close> is seen in the array.
\<close>

record builder_state =
  sections :: "section_obj list"
  current :: "nat option"

definition builder_init :: builder_state where
  "builder_init = \<lparr>sections = [], current = None\<rparr>"

text \<open>The section object of a section row, whose trimmed first cell is \<open>a\<close>.\<close>

definition newSection :: "jsstring \<Rightarrow> jsstring list \<Rightarrow> section_obj" where
  "newSection a r =
     (let scalePercent' = parsePercentCell (cellAt r 4) (Num 100);
          titleYOffsetPx' = parseNumberCell (cellAt r 5) (Num 0)
      in \<lparr>id_num = parseInt10 a,
          imageUrl = trim (stripOuterQuotes (orElse (cellAt r 1) [])),
          title = trim (orElse (cellAt r 2) []),
          subtitle = trim (orElse (cellAt r 3) []),
          scalePercent = scalePercent',
          titleYOffsetPx = titleYOffsetPx',
          items = []\<rparr>)"

text \<open>
  The item object of an item row, whose trimmed first cell is \<open>a\<close>. \<open>s || "green"\<close> is
  \<open>"green"\<close> for the empty string.
\<close>

definition newItem :: "jsstring \<Rightarrow> jsstring list \<Rightarrow> item" where
  "newItem a r =
     (let rawLinkOrText = trim (stripOuterQuotes (orElse (cellAt r 1) []));
          c = trim (orElse (cellAt r 4) (js ''green''))
      in \<lparr>name = a,
          linkOrText = rawLinkOrText,
          isUrl = isNavigableUrl rawLinkOrText,
          x_coord = parseNumberCell (cellAt r 2) NaN,
          y_coord = parseNumberCell (cellAt r 3) NaN,
          color = (if c = [] then js ''green'' else c),
          radius = parseNumberCell (cellAt r 5) (Num 15)\<rparr>)"

text \<open>
  One iteration of the loop over the rows. \<open>continue\<close> leaves the state as it is. The item
  is built before its coordinates are tested, as in the source; building has no effect.
\<close>

definition rowStep :: "builder_state \<Rightarrow> jsstring list \<Rightarrow> builder_state" where
  "rowStep st r =
     (let a = trim (orElse (cellAt r 0) []) in
      if a = [] then st
      else if isIntegerCell a then
        st\<lparr>sections := sections st @ [newSection a r], current := Some (length (sections st))\<rparr>
      else
        (case current st of
           None \<Rightarrow> st
         | Some i \<Rightarrow>
             (let it = newItem a r in
              if \<not> isFinite (x_coord it) \<or> \<not> isFinite (y_coord it) then st
              else st\<lparr>sections :=
                     (sections st)[i := (sections st ! i)\<lparr>items := items (sections st ! i) @ [it]\<rparr>]\<rparr>)))"

definition rowsToSections :: "jsstring list list \<Rightarrow> section_obj list" where
  "rowsToSections rs = sections (foldl rowStep builder_init rs)"

subsection \<open>Notions used to state properties of the builder\<close>

text \<open>A section row: its first cell, trimmed, is one or more ASCII digits.\<close>

definition isSectionRow :: "jsstring list \<Rightarrow> bool" where
  "isSectionRow r = isIntegerCell (trim (orElse (cellAt r 0) []))"

text \<open>An item row: its first cell, trimmed, is not empty and is not a section marker.\<close>

definition isItemRow :: "jsstring list \<Rightarrow> bool" where
  "isItemRow r = (trim (orElse (cellAt r 0) []) \<noteq> [] \<and> \<not> isSectionRow r)"

text \<open>
  The objects that the loop builds from a row, and the items it keeps from a run of item
  rows: those whose two coordinates are finite.
\<close>

definition sectionOfRow :: "jsstring list \<Rightarrow> section_obj" where
  "sectionOfRow r = newSection (trim (orElse (cellAt r 0) [])) r"

definition itemOfRow :: "jsstring list \<Rightarrow> item" where
  "itemOfRow r = newItem (trim (orElse (cellAt r 0) [])) r"

definition keptItems :: "jsstring list list \<Rightarrow> item list" where
  "keptItems rs = filter (\<lambda>it. isFinite (x_coord it) \<and> isFinite (y_coord it)) (map itemOfRow rs)"

text \<open>
  A cell parses to a finite number: it is there, is not empty after trimming, and
  \<open>parseFloat\<close> reads a finite number from it.
\<close>

definition parsesToFinite :: "jsstring option \<Rightarrow> bool" where
  "parsesToFinite cell =
     (case cell of None \<Rightarrow> False | Some c \<Rightarrow> trim c \<noteq> [] \<and> isFinite (parseFloat (trim c)))"

text \<open>The state of the loop is well formed: \<open>current\<close> refers to the last section pushed.\<close>

definition builder_wf :: "builder_state \<Rightarrow> bool" where
  "builder_wf st =
     (case current st of
        None \<Rightarrow> sections st = []
      | Some i \<Rightarrow> sections st \<noteq> [] \<and> i = length (sections st) - 1)"

section \<open>Popup markup\<close>

definition AMP :: jschar where "AMP = 0x26"
definition LESS_THAN :: jschar where "LESS_THAN = 0x3C"
definition GREATER_THAN :: jschar where "GREATER_THAN = 0x3E"
definition APOS :: jschar where "APOS = 0x27"
definition LBRACKET :: jschar where "LBRACKET = 0x5B"
definition RBRACKET :: jschar where "RBRACKET = 0x5D"
definition LPAREN :: jschar where "LPAREN = 0x28"
definition RPAREN :: jschar where "RPAREN = 0x29"

text \<open>\<open>s.replaceAll(c, rep)\<close> for a pattern of one character, and \<open>s.replace(/\n/g, rep)\<close>.\<close>

definition replaceAllChar :: "jschar \<Rightarrow> jsstring \<Rightarrow> jsstring \<Rightarrow> jsstring" where
  "replaceAllChar c rep s = concat (map (\<lambda>d. if d = c then rep else [d]) s)"

text \<open>The five passes of \<open>escapeHtml\<close>, the ampersand first.\<close>

definition escapeHtml :: "jsstring \<Rightarrow> jsstring" where
  "escapeHtml str =
     replaceAllChar APOS (js ''&#039;'')
       (replaceAllChar DQUOTE (js ''&quot;'')
          (replaceAllChar GREATER_THAN (js ''&gt;'')
             (replaceAllChar LESS_THAN (js ''&lt;'')
                (replaceAllChar AMP (js ''&amp;'') str))))"

text \<open>
  The match of \<open>/\[([^\]]+)\]\(([^)]+)\)/\<close> at the head of a string: the two capture groups
  and what follows the match. A group repeats every character but one, and is followed by
  that one character, so it can only end at the first occurrence of it: the label is all
  that stands before the first \<open>]\<close>, the target all that stands before the first \<open>)\<close>, and
  neither is empty.
\<close>

definition matchLink :: "jsstring \<Rightarrow> (jsstring \<times> jsstring \<times> jsstring) option" where
  "matchLink s =
     (if charAt s 0 \<noteq> Some LBRACKET then None
      else
        (let label = takeWhile (\<lambda>d. d \<noteq> RBRACKET) (tl s);
             r1 = dropWhile (\<lambda>d. d \<noteq> RBRACKET) (tl s)
         in if label = [] \<or> charAt r1 0 \<noteq> Some RBRACKET \<or> charAt r1 1 \<noteq> Some LPAREN then None
            else
              (let url = takeWhile (\<lambda>d. d \<noteq> RPAREN) (drop 2 r1);
                   r2 = dropWhile (\<lambda>d. d \<noteq> RPAREN) (drop 2 r1)
               in if url = [] \<or> charAt r2 0 \<noteq> Some RPAREN then None
                  else Some (label, url, tl r2))))"

text \<open>The callback of the replacement: what stands for one match.\<close>

definition linkReplacement :: "jsstring \<Rightarrow> jsstring \<Rightarrow> jsstring" where
  "linkReplacement label url =
     (let href = trim url in
      if \<not> isNavigableUrl href then
        escapeHtml label @ js '' ('' @ escapeHtml href @ js '')''
      else
        (let safeLabel = label; safeHref = escapeHtml href in
         js ''<a href='' @ [DQUOTE] @ safeHref @ [DQUOTE] @ js '' target='' @ [DQUOTE]
           @ js ''_blank'' @ [DQUOTE] @ js '' rel='' @ [DQUOTE] @ js ''noopener noreferrer''
           @ [DQUOTE] @ js ''>'' @ safeLabel @ js ''</a>''))"

text \<open>
  \<open>escaped.replace(/.../g, callback)\<close>: the string is scanned from the left; where the
  expression matches, the match is replaced and the scan goes on after it; where it does
  not, the character is kept and the scan goes on with the next one.
\<close>

lemma matchLink_shorter:
  "matchLink s = Some (label, url, rest) \<Longrightarrow> length rest < length s"
proof -
  assume m: "matchLink s = Some (label, url, rest)"
  define r1 where "r1 = dropWhile (\<lambda>d. d \<noteq> RBRACKET) (tl s)"
  define r2 where "r2 = dropWhile (\<lambda>d. d \<noteq> RPAREN) (drop 2 r1)"
  from m have rest: "rest = tl r2" and ne: "s \<noteq> []"
    by (auto simp: matchLink_def Let_def r1_def r2_def charAt_def split: if_splits)
  have "length r2 \<le> length (drop 2 r1)" unfolding r2_def by (rule length_dropWhile_le)
  moreover have "length r1 \<le> length (tl s)" unfolding r1_def by (rule length_dropWhile_le)
  ultimately have "length r2 \<le> length s" by simp
  moreover have "length (tl s) < length s" using ne by simp
  ultimately show ?thesis using rest \<open>length r2 \<le> length (drop 2 r1)\<close> \<open>length r1 \<le> length (tl s)\<close>
    by simp
qed

function replaceLinks :: "jsstring \<Rightarrow> jsstring" where
  "replaceLinks [] = []"
| "replaceLinks (c # cs) =
     (case matchLink (c # cs) of
        Some (label, url, rest) \<Rightarrow> linkReplacement label url @ replaceLinks rest
      | None \<Rightarrow> c # replaceLinks cs)"
  by pat_completeness auto
termination
  by (relation "measure length") (auto dest: matchLink_shorter)

definition mdToSafeHtml :: "jsstring \<Rightarrow> jsstring" where
  "mdToSafeHtml input =
     (let escaped = escapeHtml input;
          linked = replaceLinks escaped
      in replaceAllChar LF (js ''<br>'') linked)"

section \<open>The popup of a section\<close>

text \<open>
  What the handlers of \<open>createSectionEl\<close> read and write: whether the popup element has
  the class \<open>hidden\<close>, the variable \<open>pinned\<close>, whether a hide timer is pending (\<open>hideTimer\<close>;
  after a timer has fired the variable keeps its identifier, which \<open>clearTimeout\<close> ignores),
  the variable \<open>lastPopupPos\<close> (\<open>null\<close> is \<open>None\<close>) and the markup shown in the popup. Where
  the popup is placed on the screen is layout, and is not modelled.
\<close>

record popup_state =
  hidden :: bool
  pinned :: bool
  hideTimer :: bool
  lastPopupPos :: "(jsnum \<times> jsnum) option"
  content :: jsstring

text \<open>The state when the markers of a section are created.\<close>

definition popup_init :: popup_state where
  "popup_init = \<lparr>hidden = True, pinned = False, hideTimer = False, lastPopupPos = None, content = []\<rparr>"

definition clearHideTimer :: "popup_state \<Rightarrow> popup_state" where
  "clearHideTimer st = st\<lparr>hideTimer := False\<rparr>"

definition hidePopup :: "popup_state \<Rightarrow> popup_state" where
  "hidePopup st = st\<lparr>hidden := True\<rparr>"

definition scheduleHidePopup :: "popup_state \<Rightarrow> popup_state" where
  "scheduleHidePopup st = (clearHideTimer st)\<lparr>hideTimer := True\<rparr>"

text \<open>The callback of the timer, when a pending timer fires.\<close>

definition hideTimerFires :: "popup_state \<Rightarrow> popup_state" where
  "hideTimerFires st =
     (if hideTimer st then
        (let st' = st\<lparr>hideTimer := False\<rparr> in if \<not> pinned st' then hidePopup st' else st')
      else st)"

text \<open>\<open>positionPopupAt\<close> removes the class \<open>hidden\<close>; the rest of it is layout.\<close>

definition positionPopupAt :: "popup_state \<Rightarrow> popup_state" where
  "positionPopupAt st = st\<lparr>hidden := False\<rparr>"

text \<open>\<open>show\<close> of a text marker; \<open>s || ""\<close> is \<open>s\<close> for every string.\<close>

definition showPopup :: "item \<Rightarrow> popup_state \<Rightarrow> popup_state" where
  "showPopup it st =
     positionPopupAt
       ((clearHideTimer st)\<lparr>lastPopupPos := Some (x_coord it, y_coord it),
                             content := mdToSafeHtml (linkOrText it)\<rparr>)"

text \<open>The handlers of a text marker.\<close>

definition markerPointerEnter :: "item \<Rightarrow> popup_state \<Rightarrow> popup_state" where
  "markerPointerEnter it st = showPopup it (st\<lparr>pinned := False\<rparr>)"

definition markerPointerLeave :: "item \<Rightarrow> popup_state \<Rightarrow> popup_state" where
  "markerPointerLeave it st = scheduleHidePopup st"

definition sameMarker :: "item \<Rightarrow> popup_state \<Rightarrow> bool" where
  "sameMarker it st =
     (case lastPopupPos st of
        None \<Rightarrow> False
      | Some (px, py) \<Rightarrow> strictEquals px (x_coord it) \<and> strictEquals py (y_coord it))"

definition markerClick :: "item \<Rightarrow> popup_state \<Rightarrow> popup_state" where
  "markerClick it st =
     (if hidden st \<or> \<not> sameMarker it st then showPopup it (st\<lparr>pinned := True\<rparr>)
      else
        (let st' = st\<lparr>pinned := \<not> pinned st\<rparr> in
         if \<not> pinned st' then hidePopup st' else st'))"

text \<open>The close button, and a click on the stage outside the popup and the markers.\<close>

definition closeClick :: "popup_state \<Rightarrow> popup_state" where
  "closeClick st = hidePopup (st\<lparr>pinned := False\<rparr>)"

definition stageClickOutside :: "popup_state \<Rightarrow> popup_state" where
  "stageClickOutside st = hidePopup (st\<lparr>pinned := False\<rparr>)"

text \<open>The three states of the popup that the specification names.\<close>

datatype popup_mode = Hidden | ShownHover | ShownPinned

definition popup_mode_of :: "popup_state \<Rightarrow> popup_mode" where
  "popup_mode_of st = (if hidden st then Hidden else if pinned st then ShownPinned else ShownHover)"

section \<open>Properties of the parser\<close>

subsection \<open>Carriage returns\<close>

lemma set_tl_subset: "x \<in> set (tl xs) \<Longrightarrow> x \<in> set xs"
  by (cases xs) auto

lemma set_trim_subset: "set (trim s) \<subseteq> set s"
  unfolding trim_def trimEnd_def trimStart_def
  by (metis set_dropWhileD set_rev subsetI)

lemma cellsOf_upd [simp]:
  "cellsOf (st\<lparr>field := field st @ [c]\<rparr>) = insert c (cellsOf st)"
  "cellsOf (st\<lparr>inQuotes := b\<rparr>) = cellsOf st"
  "cellsOf (st\<lparr>row := row st @ [field st], field := []\<rparr>) = cellsOf st"
  "cellsOf (st\<lparr>rows := rows st @ [row st @ [field st]], row := [], field := []\<rparr>) = cellsOf st"
  by (auto simp: cellsOf_def)

lemma scanCsv_chars:
  "cellsOf (scanCsv inp st)
     \<subseteq> cellsOf st \<union> (set inp - {DQUOTE, COMMA, LF, CR}) \<union> set (quotedChars inp (inQuotes st))"
proof (induction inp st rule: scanCsv.induct)
  case (1 st)
  then show ?case by simp
next
  case (2 c cs st)
  note IH = this
  have tl: "set (tl cs) \<subseteq> set cs" using set_tl_subset by fastforce
  show ?case
  proof (cases "inQuotes st")
    case q: True
    show ?thesis
    proof (cases "c = DQUOTE")
      case d: True
      show ?thesis
      proof (cases "charAt cs 0 = Some DQUOTE")
        case True
        with q d IH(1) tl show ?thesis by (simp add: subset_iff; blast?)
      next
        case False
        with q d IH(2) show ?thesis by (simp add: subset_iff; blast?)
      qed
    next
      case False
      with q IH(3) show ?thesis by (simp add: subset_iff; blast?)
    qed
  next
    case q: False
    consider "c = DQUOTE" | "c \<noteq> DQUOTE" "c = COMMA" | "c \<noteq> DQUOTE" "c \<noteq> COMMA" "c = LF"
      | "c \<noteq> DQUOTE" "c \<noteq> COMMA" "c \<noteq> LF" "c = CR"
      | "c \<noteq> DQUOTE" "c \<noteq> COMMA" "c \<noteq> LF" "c \<noteq> CR"
      by blast
    then show ?thesis
    proof cases
      case 1
      with q IH(4) show ?thesis by (simp add: subset_iff; blast?)
    next
      case 2
      with q IH(5) show ?thesis by (simp add: subset_iff; blast?)
    next
      case 3
      with q IH(6) show ?thesis by (simp add: subset_iff; blast?)
    next
      case 4
      with q IH(7) show ?thesis by (simp add: subset_iff; blast?)
    next
      case 5
      with q IH(8) show ?thesis by (simp add: subset_iff; blast?)
    qed
  qed
qed

lemma cellsOf_flush: "\<Union>(set ` \<Union>(set ` set (flushCsv st))) \<subseteq> cellsOf st"
  by (auto simp: flushCsv_def cellsOf_def)

lemma parseCsv_chars:
  "r \<in> set (parseCsv inp) \<Longrightarrow> cell \<in> set r \<Longrightarrow> c \<in> set cell \<Longrightarrow>
     c \<in> (set inp - {DQUOTE, COMMA, LF, CR}) \<union> set (quotedChars inp False)"
proof -
  assume a: "r \<in> set (parseCsv inp)" "cell \<in> set r" "c \<in> set cell"
  then obtain r0 where r0: "r0 \<in> set (flushCsv (scanCsv inp csv_init))" "r = map trim r0"
    by (auto simp: parseCsv_def)
  with a obtain c0 where c0: "c0 \<in> set r0" "cell = trim c0" by auto
  with a have "c \<in> set c0" using set_trim_subset by blast
  with r0 c0 have "c \<in> cellsOf (scanCsv inp csv_init)"
    using cellsOf_flush by blast
  moreover have "cellsOf csv_init = {}" "inQuotes csv_init = False"
    by (simp_all add: cellsOf_def csv_init_def)
  ultimately show ?thesis using scanCsv_chars [of inp csv_init]
    by (simp add: subset_iff)
qed

text \<open>
  C4, as amended. The scanner drops a carriage return only outside a quoted field. When no
  carriage return lies inside a quoted field of the text, no cell of the result of
  \<open>parseCsv\<close> holds a carriage return. A carriage return inside a quoted field is content:
  it is appended to the field like any other code unit, and stays in the cell unless the
  final trimming removes it at either end.
\<close>

theorem parseCsv_cr_outside_quotes_discarded:
  "CR \<notin> set (quotedChars inp False) \<Longrightarrow>
     \<forall>r \<in> set (parseCsv inp). \<forall>cell \<in> set r. CR \<notin> set cell"
proof (intro ballI notI)
  fix r cell
  assume "CR \<notin> set (quotedChars inp False)" "r \<in> set (parseCsv inp)" "cell \<in> set r"
    "CR \<in> set cell"
  then show False using parseCsv_chars [of r inp cell CR] by simp
qed

text \<open>
  C4 as stated fails: the text \<open>"a<CR>b"\<close> with a carriage return between \<open>a\<close> and \<open>b\<close>,
  all inside one pair of quotes, parses to one cell that still holds the carriage return.
\<close>

theorem parseCsv_cr_in_quotes_kept:
  "parseCsv ([DQUOTE] @ js ''a'' @ [CR] @ js ''b'' @ [DQUOTE]) = [[js ''a'' @ [CR] @ js ''b'']]"
  by code_simp

theorem parseCsv_cr_witness:
  "CR \<notin> set (quotedChars (js ''a'' @ [CR, LF] @ js ''b'') False) \<and>
   CR \<notin> \<Union>(set ` \<Union>(set ` set (parseCsv (js ''a'' @ [CR, LF] @ js ''b''))))"
proof -
  have h: "CR \<notin> set (quotedChars (js ''a'' @ [CR, LF] @ js ''b'') False)" by code_simp
  show ?thesis using h parseCsv_cr_outside_quotes_discarded [OF h] by blast
qed

subsection \<open>Doubled quotes\<close>

lemma scanCsv_quoted_run:
  "DQUOTE \<notin> set a \<Longrightarrow> inQuotes st \<Longrightarrow>
     scanCsv (a @ rest) st = scanCsv rest (st\<lparr>field := field st @ a\<rparr>)"
proof (induction a arbitrary: st)
  case Nil
  then show ?case by simp
next
  case (Cons c a)
  then have "c \<noteq> DQUOTE" by auto
  with Cons show ?case by simp
qed

lemma quotedChars_no_doubled:
  "\<not> hasDoubledQuote inp \<Longrightarrow> DQUOTE \<notin> set (quotedChars inp q)"
proof (induction inp q rule: quotedChars.induct)
  case (1 q)
  then show ?case by simp
next
  case (2 c cs q)
  have tl: "\<not> hasDoubledQuote cs" "\<not> hasDoubledQuote (tl cs)"
    using 2(6) by (cases cs; cases "tl cs"; auto)+
  have nd: "\<not> (c = DQUOTE \<and> charAt cs 0 = Some DQUOTE)"
    using 2(6) by (cases cs) (auto simp: charAt_def)
  show ?case using 2(1-5) tl nd by (auto split: if_splits)
qed

text \<open>
  C8. A well-formed quoted field with an embedded doubled quote: an opening quote, content
  \<open>a\<close> without quotes, two quotes, content \<open>b\<close> without quotes, a closing quote that is not
  followed by a further quote. Wherever such a field stands (any scanner state outside
  quotes, any text after it), the scanner appends \<open>a\<close>, exactly one quote and \<open>b\<close> to the
  current field and leaves the quoted state. When the field is the whole text, the result
  of \<open>parseCsv\<close> is the one cell \<open>a"b\<close>, trimmed. And the doubled quote is the only source
  of a quote: a text without two adjacent quotes yields no cell with a quote in it.
\<close>

theorem parseCsv_doubled_quote:
  assumes a: "DQUOTE \<notin> set a" and b: "DQUOTE \<notin> set b"
    and rest: "charAt rest 0 \<noteq> Some DQUOTE" and st: "\<not> inQuotes st"
    and nd: "\<not> hasDoubledQuote inp"
  shows "scanCsv (DQUOTE # a @ [DQUOTE, DQUOTE] @ b @ DQUOTE # rest) st
           = scanCsv rest (st\<lparr>field := field st @ a @ [DQUOTE] @ b\<rparr>)
       \<and> parseCsv (DQUOTE # a @ [DQUOTE, DQUOTE] @ b @ [DQUOTE]) = [[trim (a @ [DQUOTE] @ b)]]
       \<and> DQUOTE \<notin> \<Union>(set ` \<Union>(set ` set (parseCsv inp)))"
proof -
  have gen: "scanCsv (DQUOTE # a @ [DQUOTE, DQUOTE] @ b @ DQUOTE # r) s
           = scanCsv r (s\<lparr>field := field s @ a @ [DQUOTE] @ b\<rparr>)"
    if r: "charAt r 0 \<noteq> Some DQUOTE" and s: "\<not> inQuotes s" for r s
  proof -
    obtain R W F where s': "s = \<lparr>rows = R, row = W, field = F, inQuotes = False\<rparr>"
      using s by (cases s) auto
    show ?thesis
      unfolding s'
      using scanCsv_quoted_run [OF a, of "\<lparr>rows = R, row = W, field = F, inQuotes = True\<rparr>"]
        scanCsv_quoted_run [OF b, of "\<lparr>rows = R, row = W, field = F @ a @ [DQUOTE], inQuotes = True\<rparr>"]
        r
      by (simp add: charAt_def)
  qed
  have p1: "scanCsv (DQUOTE # a @ [DQUOTE, DQUOTE] @ b @ DQUOTE # rest) st
           = scanCsv rest (st\<lparr>field := field st @ a @ [DQUOTE] @ b\<rparr>)"
    using gen [OF rest st] .
  have p2: "parseCsv (DQUOTE # a @ [DQUOTE, DQUOTE] @ b @ [DQUOTE]) = [[trim (a @ [DQUOTE] @ b)]]"
    using gen [of "[]" csv_init] by (simp add: parseCsv_def flushCsv_def csv_init_def charAt_def)
  have p3: "DQUOTE \<notin> \<Union>(set ` \<Union>(set ` set (parseCsv inp)))"
    using parseCsv_chars [of _ inp _ DQUOTE] quotedChars_no_doubled [OF nd, of False] by auto
  show ?thesis using p1 p2 p3 by blast
qed

theorem parseCsv_doubled_quote_witness:
  "DQUOTE \<notin> set (js ''say '') \<and> DQUOTE \<notin> set (js ''hi'')
   \<and> charAt (COMMA # js ''7'') 0 \<noteq> Some DQUOTE \<and> \<not> inQuotes csv_init
   \<and> \<not> hasDoubledQuote (DQUOTE # js ''a,b'' @ DQUOTE # js '',c'')
   \<and> parseCsv (DQUOTE # js ''say '' @ [DQUOTE, DQUOTE] @ js ''hi'' @ [DQUOTE])
        = [[js ''say '' @ [DQUOTE] @ js ''hi'']]
   \<and> parseCsv (DQUOTE # js ''a,b'' @ DQUOTE # js '',c'') = [[js ''a,b'', js ''c'']]"
proof -
  have h1: "DQUOTE \<notin> set (js ''say '')" by code_simp
  have h2: "DQUOTE \<notin> set (js ''hi'')" by code_simp
  have h3: "charAt (COMMA # js ''7'') 0 \<noteq> Some DQUOTE" by code_simp
  have h4: "\<not> inQuotes csv_init" by code_simp
  have h5: "\<not> hasDoubledQuote (DQUOTE # js ''a,b'' @ DQUOTE # js '',c'')" by code_simp
  have t: "trim (js ''say '' @ [DQUOTE] @ js ''hi'') = js ''say '' @ [DQUOTE] @ js ''hi''"
    by code_simp
  have e: "parseCsv (DQUOTE # js ''a,b'' @ DQUOTE # js '',c'') = [[js ''a,b'', js ''c'']]"
    by code_simp
  show ?thesis
    using parseCsv_doubled_quote [OF h1 h2 h3 h4 h5] h1 h2 h3 h4 h5 t e by simp
qed

section \<open>Properties of the builder\<close>

lemma trim_Nil [simp]: "trim [] = []"
  by (simp add: trim_def trimEnd_def trimStart_def)

lemma isIntegerCell_nonempty: "isIntegerCell a \<Longrightarrow> a \<noteq> []"
  by (auto simp: isIntegerCell_def)

lemma rowStep_section:
  "isSectionRow r \<Longrightarrow>
     rowStep st r = st\<lparr>sections := sections st @ [newSection (trim (orElse (cellAt r 0) [])) r],
                        current := Some (length (sections st))\<rparr>"
  by (auto simp: rowStep_def isSectionRow_def Let_def dest: isIntegerCell_nonempty)

lemma rowStep_orphan:
  "\<not> isSectionRow r \<Longrightarrow> current st = None \<Longrightarrow> rowStep st r = st"
  by (simp add: rowStep_def isSectionRow_def Let_def)

lemma rowStep_blank:
  "trim (orElse (cellAt r 0) []) = [] \<Longrightarrow> rowStep st r = st"
  by (simp add: rowStep_def)

lemma rowStep_item:
  "isItemRow r \<Longrightarrow> current st = Some i \<Longrightarrow>
     rowStep st r =
       (let it = newItem (trim (orElse (cellAt r 0) [])) r in
        if isFinite (x_coord it) \<and> isFinite (y_coord it)
        then st\<lparr>sections := (sections st)[i := (sections st ! i)\<lparr>items := items (sections st ! i) @ [it]\<rparr>]\<rparr>
        else st)"
  by (auto simp: rowStep_def isItemRow_def isSectionRow_def Let_def)

lemma row_cases:
  obtains (blank) "trim (orElse (cellAt r 0) []) = []" "\<not> isSectionRow r"
  | (secrow) "isSectionRow r" | (itemrow) "isItemRow r"
  by (auto simp: isItemRow_def isSectionRow_def dest: isIntegerCell_nonempty)

lemma builder_wf_init: "builder_wf builder_init"
  by (simp add: builder_wf_def builder_init_def)

lemma builder_wf_step: "builder_wf st \<Longrightarrow> builder_wf (rowStep st r)"
proof (cases r rule: row_cases)
  case blank
  then show "builder_wf st \<Longrightarrow> ?thesis" by (simp add: rowStep_blank)
next
  case secrow
  then show ?thesis by (simp add: rowStep_section builder_wf_def)
next
  case itemrow
  assume wf: "builder_wf st"
  show ?thesis
  proof (cases "current st")
    case None
    with itemrow wf show ?thesis by (simp add: rowStep_orphan isItemRow_def)
  next
    case (Some i)
    with itemrow wf show ?thesis by (auto simp: rowStep_item Let_def builder_wf_def)
  qed
qed

lemma builder_wf_foldl: "builder_wf st \<Longrightarrow> builder_wf (foldl rowStep st rs)"
  by (induction rs arbitrary: st) (simp_all add: builder_wf_step)

lemma trim_ends:
  assumes "trim s \<noteq> []"
  shows "\<not> isWhiteSpace (hd (trim s))" "\<not> isWhiteSpace (last (trim s))"
proof -
  define u where "u = dropWhile isWhiteSpace s"
  define v where "v = dropWhile isWhiteSpace (rev u)"
  have t: "trim s = rev v" by (simp add: trim_def trimEnd_def trimStart_def u_def v_def)
  with assms have v: "v \<noteq> []" by simp
  then have ru: "rev u \<noteq> []" unfolding v_def by auto
  have "\<not> isWhiteSpace (hd v)" using v unfolding v_def by (rule hd_dropWhile)
  then show "\<not> isWhiteSpace (last (trim s))" using t v by (simp add: last_rev)
  obtain w where w: "rev u = w @ v" unfolding v_def
    by (metis takeWhile_dropWhile_id)
  have "last v = last (rev u)" using w v by simp
  also have "\<dots> = hd u" using ru by (simp add: last_rev)
  finally have "hd (trim s) = hd u" using t v by (simp add: hd_rev)
  moreover have "\<not> isWhiteSpace (hd u)" using ru unfolding u_def by (simp add: hd_dropWhile)
  ultimately show "\<not> isWhiteSpace (hd (trim s))" by simp
qed

lemma trim_id:
  assumes "s = [] \<or> (\<not> isWhiteSpace (hd s) \<and> \<not> isWhiteSpace (last s))"
  shows "trim s = s"
proof (cases "s = []")
  case True
  then show ?thesis by simp
next
  case False
  with assms have h: "\<not> isWhiteSpace (hd s)" and l: "\<not> isWhiteSpace (last s)" by auto
  have "dropWhile isWhiteSpace s = s" using h by (simp add: dropWhile_eq_self_iff)
  moreover have "dropWhile isWhiteSpace (rev s) = rev s"
    using l False by (simp add: dropWhile_eq_self_iff hd_rev)
  ultimately show ?thesis by (simp add: trim_def trimEnd_def trimStart_def)
qed

lemma trim_idem [simp]: "trim (trim s) = trim s"
  using trim_ends [of s] by (intro trim_id) blast








lemma foldl_item_rows:
  assumes "list_all isItemRow its" "sections st = ss @ [s]" "current st = Some (length ss)"
  shows "foldl rowStep st its = st\<lparr>sections := ss @ [s\<lparr>items := items s @ keptItems its\<rparr>]\<rparr>"
  using assms
proof (induction its arbitrary: st s)
  case Nil
  then show ?case by (simp add: keptItems_def)
next
  case (Cons r its)
  then have r: "isItemRow r" and its: "list_all isItemRow its" by simp_all
  let ?it = "itemOfRow r"
  show ?case
  proof (cases "isFinite (x_coord ?it) \<and> isFinite (y_coord ?it)")
    case True
    let ?st = "st\<lparr>sections := ss @ [s\<lparr>items := items s @ [?it]\<rparr>]\<rparr>"
    have step: "rowStep st r = ?st"
      using r Cons.prems True by (simp add: rowStep_item Let_def itemOfRow_def)
    have "foldl rowStep ?st its = ?st\<lparr>sections := ss @ [(s\<lparr>items := items s @ [?it]\<rparr>)\<lparr>items := items (s\<lparr>items := items s @ [?it]\<rparr>) @ keptItems its\<rparr>]\<rparr>"
      using Cons.prems by (intro Cons.IH its) simp_all
    then show ?thesis using step True by (simp add: keptItems_def)
  next
    case False
    have step: "rowStep st r = st"
      using r Cons.prems False by (auto simp: rowStep_item Let_def itemOfRow_def)
    show ?thesis using step False Cons.IH [OF its Cons.prems(2,3)] by (simp add: keptItems_def)
  qed
qed

lemma rowsToSections_append_section:
  assumes r: "isSectionRow r" and its: "list_all isItemRow its"
  shows "rowsToSections (pre @ r # its) = rowsToSections pre @ [(sectionOfRow r)\<lparr>items := keptItems its\<rparr>]"
proof -
  define st1 where "st1 = foldl rowStep builder_init pre"
  define st2 where "st2 = rowStep st1 r"
  have st2: "st2 = st1\<lparr>sections := sections st1 @ [sectionOfRow r], current := Some (length (sections st1))\<rparr>"
    unfolding st2_def using r by (simp add: rowStep_section sectionOfRow_def)
  have "foldl rowStep st2 its
          = st2\<lparr>sections := sections st1 @ [(sectionOfRow r)\<lparr>items := items (sectionOfRow r) @ keptItems its\<rparr>]\<rparr>"
    using its by (rule foldl_item_rows) (simp_all add: st2)
  moreover have "items (sectionOfRow r) = []" by (simp add: sectionOfRow_def newSection_def Let_def)
  ultimately show ?thesis by (simp add: rowsToSections_def st1_def st2_def)
qed






lemma foldl_orphans:
  "list_all (\<lambda>r. \<not> isSectionRow r) orphans \<Longrightarrow> foldl rowStep builder_init orphans = builder_init"
  by (induction orphans) (simp_all add: rowStep_orphan builder_init_def)

text \<open>
  C7. Rows before the first section row are discarded: a run of rows none of which is a
  section row, at the start of the input, leaves no trace in the result, and alone gives
  no section (hence no item). The builder is a total function and has no error result. The
  one-row input of the specification, parsed and built, gives the empty list.
\<close>

theorem rowsToSections_orphan_rows:
  assumes "list_all (\<lambda>r. \<not> isSectionRow r) orphans"
  shows "rowsToSections (orphans @ rs) = rowsToSections rs
       \<and> rowsToSections orphans = []
       \<and> rowsToSections (parseCsv (js ''A,http://x,1,1,green,15'')) = []"
proof -
  have "rowsToSections (parseCsv (js ''A,http://x,1,1,green,15'')) = []" by code_simp
  then show ?thesis using foldl_orphans [OF assms]
    by (simp add: rowsToSections_def builder_init_def)
qed

theorem rowsToSections_orphan_rows_witness:
  "list_all (\<lambda>r. \<not> isSectionRow r) (parseCsv (js ''A,http://x,1,1,green,15''))
   \<and> parseCsv (js ''A,http://x,1,1,green,15'')
       = [[js ''A'', js ''http://x'', js ''1'', js ''1'', js ''green'', js ''15'']]
   \<and> rowsToSections (parseCsv (js ''A,http://x,1,1,green,15'') @ [[js ''3'', js ''i.png'']])
       = rowsToSections [[js ''3'', js ''i.png'']]
   \<and> rowsToSections (parseCsv (js ''A,http://x,1,1,green,15'')) = []"
proof -
  have h: "list_all (\<lambda>r. \<not> isSectionRow r) (parseCsv (js ''A,http://x,1,1,green,15''))"
    by code_simp
  have p: "parseCsv (js ''A,http://x,1,1,green,15'')
       = [[js ''A'', js ''http://x'', js ''1'', js ''1'', js ''green'', js ''15'']]" by code_simp
  show ?thesis using rowsToSections_orphan_rows [OF h, of "[[js ''3'', js ''i.png'']]"] h p by simp
qed

lemma parseNumberCell_finite: "isFinite (parseNumberCell cell NaN) = parsesToFinite cell"
  by (cases cell) (auto simp: parseNumberCell_def parsesToFinite_def Let_def isFinite_def)



subsection \<open>What every item of the result satisfies\<close>

lemma rowStep_items_inv:
  assumes inv: "\<forall>s \<in> set (sections st). \<forall>it \<in> set (items s). Q it"
    and new: "isFinite (x_coord (itemOfRow r)) \<Longrightarrow> isFinite (y_coord (itemOfRow r)) \<Longrightarrow> Q (itemOfRow r)"
  shows "\<forall>s \<in> set (sections (rowStep st r)). \<forall>it \<in> set (items s). Q it"
proof (cases r rule: row_cases)
  case blank
  then show ?thesis using inv by (simp add: rowStep_blank)
next
  case secrow
  then show ?thesis using inv by (simp add: rowStep_section newSection_def Let_def)
next
  case itemrow
  show ?thesis
  proof (cases "current st")
    case None
    with itemrow inv show ?thesis by (simp add: rowStep_orphan isItemRow_def)
  next
    case (Some i)
    show ?thesis
    proof (cases "isFinite (x_coord (itemOfRow r)) \<and> isFinite (y_coord (itemOfRow r))")
      case False
      with itemrow Some inv show ?thesis by (auto simp: rowStep_item Let_def itemOfRow_def)
    next
      case True
      let ?s' = "(sections st ! i)\<lparr>items := items (sections st ! i) @ [itemOfRow r]\<rparr>"
      have step: "sections (rowStep st r) = (sections st)[i := ?s']"
        using itemrow Some True by (simp add: rowStep_item Let_def itemOfRow_def)
      show ?thesis
      proof (cases "i < length (sections st)")
        case False
        then show ?thesis using inv step by (simp add: list_update_beyond)
      next
        case i: True
        have new': "\<forall>it \<in> set (items ?s'). Q it" using inv i new True by auto
        show ?thesis
        proof (intro ballI)
          fix s it
          assume s: "s \<in> set (sections (rowStep st r))" and it: "it \<in> set (items s)"
          from s have "s \<in> insert ?s' (set (sections st))"
            unfolding step using set_update_subset_insert by (rule subsetD [rotated])
          then consider "s = ?s'" | "s \<in> set (sections st)" by blast
          then show "Q it"
          proof cases
            case 1
            with new' it show ?thesis by blast
          next
            case 2
            with inv it show ?thesis by blast
          qed
        qed
      qed
    qed
  qed
qed

lemma foldl_items_inv:
  assumes "\<forall>s \<in> set (sections st). \<forall>it \<in> set (items s). Q it"
    and "\<And>r. isFinite (x_coord (itemOfRow r)) \<Longrightarrow> isFinite (y_coord (itemOfRow r)) \<Longrightarrow> Q (itemOfRow r)"
  shows "\<forall>s \<in> set (sections (foldl rowStep st rs)). \<forall>it \<in> set (items s). Q it"
  using assms(1)
proof (induction rs arbitrary: st)
  case Nil
  then show ?case by simp
next
  case (Cons r rs)
  have "\<forall>s \<in> set (sections (rowStep st r)). \<forall>it \<in> set (items s). Q it"
    using Cons.prems assms(2) by (rule rowStep_items_inv)
  then show ?case using Cons.IH by simp
qed

lemma rowsToSections_items_inv:
  assumes "\<And>r. isFinite (x_coord (itemOfRow r)) \<Longrightarrow> isFinite (y_coord (itemOfRow r)) \<Longrightarrow> Q (itemOfRow r)"
    and "s \<in> set (rowsToSections rs)" and "it \<in> set (items s)"
  shows "Q it"
proof -
  have "\<forall>s \<in> set (sections (foldl rowStep builder_init rs)). \<forall>it \<in> set (items s). Q it"
    by (rule foldl_items_inv) (simp_all add: builder_init_def assms(1))
  then show ?thesis using assms(2,3) by (simp add: rowsToSections_def)
qed

lemma rowsToSections_items_finite:
  "s \<in> set (rowsToSections rs) \<Longrightarrow> it \<in> set (items s) \<Longrightarrow>
     isFinite (x_coord it) \<and> isFinite (y_coord it)"
  by (rule rowsToSections_items_inv [where Q = "\<lambda>it. isFinite (x_coord it) \<and> isFinite (y_coord it)"]) simp_all

subsection \<open>The second stripping of quotes\<close>

lemma stripOuterQuotes_pair:
  "stripOuterQuotes (DQUOTE # m @ [DQUOTE])
     = (if list_all (\<lambda>c. \<not> isLineTerminator c) m then m else DQUOTE # m @ [DQUOTE])"
  by (simp add: stripOuterQuotes_def butlast_append)

lemma rowsToSections_snoc_section:
  "isSectionRow r \<Longrightarrow> rowsToSections (pre @ [r]) = rowsToSections pre @ [sectionOfRow r]"
  by (simp add: rowsToSections_def rowStep_section sectionOfRow_def)

lemma rowsToSections_snoc_item:
  assumes "isSectionRow s" "isItemRow r" "parsesToFinite (cellAt r 2)" "parsesToFinite (cellAt r 3)"
  shows "rowsToSections (pre @ [s, r]) = rowsToSections pre @ [(sectionOfRow s)\<lparr>items := [itemOfRow r]\<rparr>]"
proof -
  have "list_all isItemRow [r]" using assms(2) by simp
  moreover have "keptItems [r] = [itemOfRow r]"
    using assms(3,4) by (simp add: keptItems_def itemOfRow_def newItem_def Let_def parseNumberCell_finite)
  ultimately show ?thesis using rowsToSections_append_section [OF assms(1), of "[r]" pre] by simp
qed

text \<open>
  C10, as amended. The second cell of a row goes through \<open>replace(/^"(.*)"$/, "$1")\<close> and
  \<open>trim\<close>. When the cell is a quote, a text \<open>m\<close> without line terminator (LF, CR, U+2028,
  U+2029) and a quote, the image reference of a section row and the content of an item row
  are \<open>m\<close>, trimmed. When \<open>m\<close> holds a line terminator the expression does not match, and
  the cell keeps its quotes. The title, the subtitle, the label and the colour are the
  cells, trimmed, and the numeric cells go to the number parsers: none loses a quote.
\<close>

theorem rowsToSections_strips_outer_quotes:
  assumes "cellAt r 1 = Some (DQUOTE # m @ [DQUOTE])"
  shows "(isSectionRow r \<longrightarrow>
            rowsToSections (pre @ [r]) = rowsToSections pre @ [sectionOfRow r])
       \<and> (isSectionRow s \<and> isItemRow r \<and> parsesToFinite (cellAt r 2) \<and> parsesToFinite (cellAt r 3) \<longrightarrow>
            rowsToSections (pre @ [s, r]) = rowsToSections pre @ [(sectionOfRow s)\<lparr>items := [itemOfRow r]\<rparr>])
       \<and> (list_all (\<lambda>c. \<not> isLineTerminator c) m \<longrightarrow>
            imageUrl (sectionOfRow r) = trim m \<and> linkOrText (itemOfRow r) = trim m)
       \<and> (\<not> list_all (\<lambda>c. \<not> isLineTerminator c) m \<longrightarrow>
            imageUrl (sectionOfRow r) = trim (DQUOTE # m @ [DQUOTE])
            \<and> linkOrText (itemOfRow r) = trim (DQUOTE # m @ [DQUOTE]))
       \<and> title (sectionOfRow r) = trim (orElse (cellAt r 2) [])
       \<and> subtitle (sectionOfRow r) = trim (orElse (cellAt r 3) [])
       \<and> scalePercent (sectionOfRow r) = parsePercentCell (cellAt r 4) (Num 100)
       \<and> titleYOffsetPx (sectionOfRow r) = parseNumberCell (cellAt r 5) (Num 0)
       \<and> name (itemOfRow r) = trim (orElse (cellAt r 0) [])
       \<and> x_coord (itemOfRow r) = parseNumberCell (cellAt r 2) NaN
       \<and> y_coord (itemOfRow r) = parseNumberCell (cellAt r 3) NaN
       \<and> color (itemOfRow r)
           = (if trim (orElse (cellAt r 4) (js ''green'')) = [] then js ''green''
              else trim (orElse (cellAt r 4) (js ''green'')))
       \<and> radius (itemOfRow r) = parseNumberCell (cellAt r 5) (Num 15)"
  using assms
  by (simp add: rowsToSections_snoc_section rowsToSections_snoc_item stripOuterQuotes_pair
      sectionOfRow_def itemOfRow_def newSection_def newItem_def Let_def orElse_def)

theorem rowsToSections_strips_outer_quotes_witness:
  "cellAt [js ''7'', DQUOTE # js ''http://i/a.png '' @ [DQUOTE], DQUOTE # js ''T'' @ [DQUOTE]] 1
     = Some (DQUOTE # js ''http://i/a.png '' @ [DQUOTE])
   \<and> isSectionRow [js ''7'', DQUOTE # js ''http://i/a.png '' @ [DQUOTE], DQUOTE # js ''T'' @ [DQUOTE]]
   \<and> list_all (\<lambda>c. \<not> isLineTerminator c) (js ''http://i/a.png '')
   \<and> rowsToSections ([] @ [[js ''7'', DQUOTE # js ''http://i/a.png '' @ [DQUOTE], DQUOTE # js ''T'' @ [DQUOTE]]])
       = [\<lparr>id_num = Num 7, imageUrl = js ''http://i/a.png'', title = DQUOTE # js ''T'' @ [DQUOTE],
           subtitle = [], scalePercent = Num 100, titleYOffsetPx = Num 0, items = []\<rparr>]"
proof -
  let ?r = "[js ''7'', DQUOTE # js ''http://i/a.png '' @ [DQUOTE], DQUOTE # js ''T'' @ [DQUOTE]]"
  have h1: "cellAt ?r 1 = Some (DQUOTE # js ''http://i/a.png '' @ [DQUOTE])" by code_simp
  have h2: "isSectionRow ?r" by code_simp
  have h3: "list_all (\<lambda>c. \<not> isLineTerminator c) (js ''http://i/a.png '')" by code_simp
  have e: "sectionOfRow ?r = \<lparr>id_num = Num 7, imageUrl = js ''http://i/a.png'', title = DQUOTE # js ''T'' @ [DQUOTE],
           subtitle = [], scalePercent = Num 100, titleYOffsetPx = Num 0, items = []\<rparr>" by code_simp
  have n: "rowsToSections [] = []" by code_simp
  from rowsToSections_strips_outer_quotes [OF h1, of "[]"] h2
  have "rowsToSections ([] @ [?r]) = rowsToSections [] @ [sectionOfRow ?r]" by blast
  then show ?thesis using h1 h2 h3 unfolding e n by simp
qed

text \<open>
  C10 as stated fails. The text \<open>0,"""a<LF>b"""\<close> parses to a section row whose second cell
  is \<open>"a<LF>b"\<close>, quotes included: it begins and ends with a quote, yet the image reference
  keeps both quotes, because \<open>.\<close> does not match the line feed.
\<close>

theorem rowsToSections_multiline_quotes_kept:
  "parseCsv (js ''0,'' @ [DQUOTE, DQUOTE, DQUOTE] @ js ''a'' @ [LF] @ js ''b'' @ [DQUOTE, DQUOTE, DQUOTE])
     = [[js ''0'', DQUOTE # js ''a'' @ [LF] @ js ''b'' @ [DQUOTE]]]
   \<and> map imageUrl (rowsToSections (parseCsv
        (js ''0,'' @ [DQUOTE, DQUOTE, DQUOTE] @ js ''a'' @ [LF] @ js ''b'' @ [DQUOTE, DQUOTE, DQUOTE])))
     = [DQUOTE # js ''a'' @ [LF] @ js ''b'' @ [DQUOTE]]"
  by code_simp

section \<open>Properties of the coercions\<close>

subsection \<open>Link classification\<close>

lemma ignoreCase_char:
  assumes "\<not> (0x41 \<le> p \<and> p \<le> 0x5A)"
  shows "toUpperAscii c = toUpperAscii p \<longleftrightarrow> toLowerAscii c = p"
  using assms unfolding toUpperAscii_def toLowerAscii_def
  by (auto simp: word_le_nat_alt word_less_nat_alt unat_sub_if' unat_word_ariths  split: if_splits)

lemma matchIgnoreCase_startsWith:
  "list_all (\<lambda>p. \<not> (0x41 \<le> p \<and> p \<le> 0x5A)) ps \<Longrightarrow>
     matchIgnoreCase ps t = (if startsWithIgnoreCase ps t then Some (drop (length ps) t) else None)"
proof (induction ps t rule: matchIgnoreCase.induct)
  case (1 s)
  then show ?case by (simp add: startsWithIgnoreCase_def)
next
  case (2 p ps)
  then show ?case by (simp add: startsWithIgnoreCase_def)
next
  case (3 p ps c cs)
  then show ?case using ignoreCase_char [of p c]
    by (auto simp: startsWithIgnoreCase_def)
qed

lemma startsWithIgnoreCase_append:
  "startsWithIgnoreCase (p @ q) t
     \<longleftrightarrow> startsWithIgnoreCase p t \<and> startsWithIgnoreCase q (drop (length p) t)"
proof (induction p arbitrary: t)
  case Nil
  then show ?case by (simp add: startsWithIgnoreCase_def)
next
  case (Cons a p)
  show ?case
  proof (cases t)
    case Nil
    then show ?thesis by (simp add: startsWithIgnoreCase_def)
  next
    case (Cons c cs)
    with Cons.IH [of cs] show ?thesis by (auto simp: startsWithIgnoreCase_def)
  qed
qed

lemma not_startsWith_Nil: "p \<noteq> [] \<Longrightarrow> \<not> startsWithIgnoreCase p []"
  by (simp add: startsWithIgnoreCase_def)

lemma isNavigableUrl_iff:
  "isNavigableUrl s \<longleftrightarrow>
     startsWithIgnoreCase (js ''http://'') (trim s)
     \<or> startsWithIgnoreCase (js ''https://'') (trim s)
     \<or> startsWithIgnoreCase (js ''mailto:'') (trim s)"
proof -
  have lit: "list_all (\<lambda>p. \<not> (0x41 \<le> p \<and> p \<le> 0x5A)) (js ''http'')"
    "list_all (\<lambda>p. \<not> (0x41 \<le> p \<and> p \<le> 0x5A)) (js ''s'')"
    "list_all (\<lambda>p. \<not> (0x41 \<le> p \<and> p \<le> 0x5A)) (js ''://'')"
    "list_all (\<lambda>p. \<not> (0x41 \<le> p \<and> p \<le> 0x5A)) (js ''mailto:'')"
    by (simp_all add: js_def)
  have split: "js ''http://'' = js ''http'' @ js ''://''"
    "js ''https://'' = js ''http'' @ js ''s'' @ js ''://''"
    by (simp_all add: js_def)
  have len: "length (js ''http'') = 4" "length (js ''s'') = 1" by (simp_all add: js_def)
  have ne: "js ''http'' \<noteq> []" "js ''mailto:'' \<noteq> []" by (simp_all add: js_def)
  show ?thesis
  proof (cases "s = []")
    case True
    then show ?thesis
      by (simp add: isNavigableUrl_def split startsWithIgnoreCase_append not_startsWith_Nil ne)
  next
    case False
    note m = matchIgnoreCase_startsWith [OF lit(1)] matchIgnoreCase_startsWith [OF lit(2)]
      matchIgnoreCase_startsWith [OF lit(3)] matchIgnoreCase_startsWith [OF lit(4)]
    from False show ?thesis
      unfolding isNavigableUrl_def Let_def split startsWithIgnoreCase_append m
      by (auto simp: len)
  qed
qed

lemma itemOfRow_isUrl: "isUrl (itemOfRow r) = isNavigableUrl (linkOrText (itemOfRow r))"
  by (simp add: itemOfRow_def newItem_def Let_def)

text \<open>
  C2. \<open>isNavigableUrl\<close> is a function of the string alone, and says yes exactly when the
  string, trimmed, begins with \<open>http://\<close>, \<open>https://\<close> or \<open>mailto:\<close>, whatever the case of its
  letters; the empty string is not navigable. Every item of the model carries, as \<open>isUrl\<close>,
  the classification of its own content.
\<close>

theorem isNavigableUrl_classification:
  "(isNavigableUrl s \<longleftrightarrow>
      startsWithIgnoreCase (js ''http://'') (trim s)
      \<or> startsWithIgnoreCase (js ''https://'') (trim s)
      \<or> startsWithIgnoreCase (js ''mailto:'') (trim s))
   \<and> \<not> isNavigableUrl []
   \<and> (sec \<in> set (rowsToSections rs) \<longrightarrow> it \<in> set (items sec) \<longrightarrow>
        isUrl it = isNavigableUrl (linkOrText it))"
proof -
  have "isUrl it = isNavigableUrl (linkOrText it)"
    if "sec \<in> set (rowsToSections rs)" "it \<in> set (items sec)"
    using _ that
    by (rule rowsToSections_items_inv [where Q = "\<lambda>it. isUrl it = isNavigableUrl (linkOrText it)"])
       (rule itemOfRow_isUrl)
  then show ?thesis using isNavigableUrl_iff [of s] by (simp add: isNavigableUrl_def)
qed

theorem isNavigableUrl_classification_witness:
  "isNavigableUrl (js '' HTTPs://x.test/a b '')
   \<and> isNavigableUrl (js ''MailTo:me@x.test'')
   \<and> \<not> isNavigableUrl (js ''see http://x.test'')
   \<and> \<not> isNavigableUrl (js ''https:/x'')"
proof -
  have e1: "startsWithIgnoreCase (js ''https://'') (trim (js '' HTTPs://x.test/a b ''))" by code_simp
  have e2: "startsWithIgnoreCase (js ''mailto:'') (trim (js ''MailTo:me@x.test''))" by code_simp
  have e3: "\<not> (startsWithIgnoreCase (js ''http://'') (trim (js ''see http://x.test''))
      \<or> startsWithIgnoreCase (js ''https://'') (trim (js ''see http://x.test''))
      \<or> startsWithIgnoreCase (js ''mailto:'') (trim (js ''see http://x.test'')))" by code_simp
  have e4: "\<not> (startsWithIgnoreCase (js ''http://'') (trim (js ''https:/x''))
      \<or> startsWithIgnoreCase (js ''https://'') (trim (js ''https:/x''))
      \<or> startsWithIgnoreCase (js ''mailto:'') (trim (js ''https:/x'')))" by code_simp
  show ?thesis
    using isNavigableUrl_classification [of "js '' HTTPs://x.test/a b ''"]
      isNavigableUrl_classification [of "js ''MailTo:me@x.test''"]
      isNavigableUrl_classification [of "js ''see http://x.test''"]
      isNavigableUrl_classification [of "js ''https:/x''"]
      e1 e2 e3 e4
    by blast
qed

subsection \<open>Percentage cells\<close>


lemma takeWhile_run:
  "list_all P xs \<Longrightarrow> ys = [] \<or> \<not> P (hd ys) \<Longrightarrow> takeWhile P (xs @ ys) = xs"
  by (cases ys) (auto simp: list_all_iff)

lemma dropWhile_run:
  "list_all P xs \<Longrightarrow> ys = [] \<or> \<not> P (hd ys) \<Longrightarrow> dropWhile P (xs @ ys) = ys"
  by (cases ys) (auto simp: list_all_iff)



lemma trimEnd_split:
  "\<exists>ws. s = trimEnd s @ ws \<and> list_all isWhiteSpace ws"
proof -
  let ?ws = "rev (takeWhile isWhiteSpace (rev s))"
  have "rev (trimEnd s @ ?ws) = rev s" by (simp add: trimEnd_def)
  then have "s = trimEnd s @ ?ws" using rev_is_rev_conv by metis
  moreover have "list_all isWhiteSpace ?ws"
    by (auto simp: list_all_iff dest: set_takeWhileD)
  ultimately show ?thesis by blast
qed
























section \<open>Properties of the popup markup\<close>

lemma replaceAllChar_append:
  "replaceAllChar c rep (a @ b) = replaceAllChar c rep a @ replaceAllChar c rep b"
  by (simp add: replaceAllChar_def)

lemma escapeHtml_append: "escapeHtml (a @ b) = escapeHtml a @ escapeHtml b"
  by (simp add: escapeHtml_def replaceAllChar_append)

lemma escapeHtml_Nil: "escapeHtml [] = []"
  by (simp add: escapeHtml_def replaceAllChar_def)

text \<open>The five passes together replace each character on its own.\<close>

lemma escapeHtml_single:
  "escapeHtml [c] =
     (if c = AMP then js ''&amp;'' else if c = LESS_THAN then js ''&lt;''
      else if c = GREATER_THAN then js ''&gt;'' else if c = DQUOTE then js ''&quot;''
      else if c = APOS then js ''&#039;'' else [c])"
  by (simp add: escapeHtml_def replaceAllChar_def js_def AMP_def LESS_THAN_def GREATER_THAN_def
      DQUOTE_def APOS_def)

lemma escapeHtml_Cons: "escapeHtml (c # s) = escapeHtml [c] @ escapeHtml s"
  using escapeHtml_append [of "[c]" s] by simp

lemma escapeHtml_keeps:
  assumes "c \<noteq> AMP" "c \<noteq> LESS_THAN" "c \<noteq> GREATER_THAN" "c \<noteq> DQUOTE" "c \<noteq> APOS"
    and "c \<notin> set (js ''&amp;lt;gt;quot;#039;'')"
  shows "c \<in> set (escapeHtml s) \<longleftrightarrow> c \<in> set s"
proof (induction s)
  case Nil
  then show ?case by (simp add: escapeHtml_Nil)
next
  case (Cons d s)
  have "c \<in> set (escapeHtml [d]) \<longleftrightarrow> c = d"
    using assms by (auto simp: escapeHtml_single js_def)
  with Cons show ?case by (subst escapeHtml_Cons) auto
qed

lemma escapeHtml_brackets:
  "LBRACKET \<in> set (escapeHtml s) \<longleftrightarrow> LBRACKET \<in> set s"
  "RBRACKET \<in> set (escapeHtml s) \<longleftrightarrow> RBRACKET \<in> set s"
  "LPAREN \<in> set (escapeHtml s) \<longleftrightarrow> LPAREN \<in> set s"
  "RPAREN \<in> set (escapeHtml s) \<longleftrightarrow> RPAREN \<in> set s"
  "LF \<in> set (escapeHtml s) \<longleftrightarrow> LF \<in> set s"
  by (rule escapeHtml_keeps;
      simp add: LBRACKET_def RBRACKET_def LPAREN_def RPAREN_def LF_def AMP_def LESS_THAN_def
        GREATER_THAN_def DQUOTE_def APOS_def js_def)+

lemma escapeHtml_brackets_single:
  "escapeHtml [LBRACKET] = [LBRACKET]" "escapeHtml [RBRACKET] = [RBRACKET]"
  "escapeHtml [LPAREN] = [LPAREN]" "escapeHtml [RPAREN] = [RPAREN]"
  by (simp_all add: escapeHtml_single LBRACKET_def RBRACKET_def LPAREN_def RPAREN_def AMP_def
      LESS_THAN_def GREATER_THAN_def DQUOTE_def APOS_def)

lemma escapeHtml_eq_Nil: "escapeHtml s = [] \<longleftrightarrow> s = []"
proof (cases s)
  case Nil
  then show ?thesis by (simp add: escapeHtml_Nil)
next
  case (Cons c cs)
  have "escapeHtml [c] \<noteq> []" by (simp add: escapeHtml_single js_def)
  then show ?thesis using Cons escapeHtml_Cons [of c cs] by simp
qed

lemma matchLink_no_bracket: "charAt s 0 \<noteq> Some LBRACKET \<Longrightarrow> matchLink s = None"
  by (simp add: matchLink_def)

lemma replaceLinks_plain:
  "LBRACKET \<notin> set s \<Longrightarrow> replaceLinks (s @ t) = s @ replaceLinks t"
proof (induction s)
  case Nil
  then show ?case by simp
next
  case (Cons c s)
  then have "matchLink (c # s @ t) = None" by (intro matchLink_no_bracket) (auto simp: charAt_def)
  with Cons show ?case by simp
qed

lemma matchLink_link:
  assumes "label \<noteq> []" "RBRACKET \<notin> set label" "url \<noteq> []" "RPAREN \<notin> set url"
  shows "matchLink (LBRACKET # label @ RBRACKET # LPAREN # url @ RPAREN # rest) = Some (label, url, rest)"
proof -
  have l: "list_all (\<lambda>d. d \<noteq> RBRACKET) label" "list_all (\<lambda>d. d \<noteq> RPAREN) url"
    using assms by (auto simp: list_all_iff)
  have t1: "takeWhile (\<lambda>d. d \<noteq> RBRACKET) (label @ RBRACKET # LPAREN # url @ RPAREN # rest) = label"
    using l(1) by (rule takeWhile_run) simp
  have d1: "dropWhile (\<lambda>d. d \<noteq> RBRACKET) (label @ RBRACKET # LPAREN # url @ RPAREN # rest)
      = RBRACKET # LPAREN # url @ RPAREN # rest"
    using l(1) by (rule dropWhile_run) simp
  have t2: "takeWhile (\<lambda>d. d \<noteq> RPAREN) (url @ RPAREN # rest) = url"
    using l(2) by (rule takeWhile_run) simp
  have d2: "dropWhile (\<lambda>d. d \<noteq> RPAREN) (url @ RPAREN # rest) = RPAREN # rest"
    using l(2) by (rule dropWhile_run) simp
  show ?thesis
    using assms(1,3) by (simp add: matchLink_def Let_def t1 d1 t2 d2 charAt_def)
qed

text \<open>
  What \<open>mdToSafeHtml\<close> does with a text that holds a link pattern: the text before the
  first \<open>[\<close> is escaped; the pattern is replaced by what the callback gives for the escaped
  label and the escaped target; the rest is rendered in the same way; line feeds become
  \<open><br>\<close> throughout. A text without \<open>[\<close> is only escaped, with its line feeds replaced.
\<close>

lemma mdToSafeHtml_link:
  assumes "LBRACKET \<notin> set pre" "label \<noteq> []" "RBRACKET \<notin> set label"
    and "target \<noteq> []" "RPAREN \<notin> set target"
  shows "mdToSafeHtml (pre @ LBRACKET # label @ RBRACKET # LPAREN # target @ RPAREN # post)
       = replaceAllChar LF (js ''<br>'') (escapeHtml pre)
         @ replaceAllChar LF (js ''<br>'') (linkReplacement (escapeHtml label) (escapeHtml target))
         @ mdToSafeHtml post"
proof -
  have e: "escapeHtml (pre @ LBRACKET # label @ RBRACKET # LPAREN # target @ RPAREN # post)
      = escapeHtml pre @ LBRACKET # escapeHtml label @ RBRACKET # LPAREN # escapeHtml target
          @ RPAREN # escapeHtml post"
    using escapeHtml_append [of pre] escapeHtml_Cons [of LBRACKET] escapeHtml_append [of label]
      escapeHtml_Cons [of RBRACKET] escapeHtml_Cons [of LPAREN] escapeHtml_append [of target]
      escapeHtml_Cons [of RPAREN]
    by (simp add: escapeHtml_brackets_single)
  have m: "matchLink (LBRACKET # escapeHtml label @ RBRACKET # LPAREN # escapeHtml target
          @ RPAREN # escapeHtml post) = Some (escapeHtml label, escapeHtml target, escapeHtml post)"
    using assms by (intro matchLink_link) (simp_all add: escapeHtml_eq_Nil escapeHtml_brackets)
  have "replaceLinks (escapeHtml pre @ LBRACKET # escapeHtml label @ RBRACKET # LPAREN
          # escapeHtml target @ RPAREN # escapeHtml post)
      = escapeHtml pre @ linkReplacement (escapeHtml label) (escapeHtml target)
          @ replaceLinks (escapeHtml post)"
    using assms(1) m by (simp add: replaceLinks_plain escapeHtml_brackets)
  then show ?thesis unfolding mdToSafeHtml_def Let_def e by (simp add: replaceAllChar_append)
qed

lemma mdToSafeHtml_plain:
  "LBRACKET \<notin> set s \<Longrightarrow> mdToSafeHtml s = replaceAllChar LF (js ''<br>'') (escapeHtml s)"
  using replaceLinks_plain [of "escapeHtml s" "[]"]
  by (simp add: mdToSafeHtml_def Let_def escapeHtml_brackets)


subsection \<open>The link test on escaped text\<close>

lemma escapeHtml_space: "isWhiteSpace c \<Longrightarrow> escapeHtml [c] = [c]"
  by (auto simp: escapeHtml_single isWhiteSpace_def AMP_def LESS_THAN_def GREATER_THAN_def
      DQUOTE_def APOS_def)

lemma escapeHtml_head: "escapeHtml [c] \<noteq> [] \<and> (isWhiteSpace (hd (escapeHtml [c])) \<longleftrightarrow> isWhiteSpace c)"
  by (auto simp: escapeHtml_single js_def isWhiteSpace_def AMP_def LESS_THAN_def GREATER_THAN_def
      DQUOTE_def APOS_def)

lemma trimStart_escapeHtml: "trimStart (escapeHtml t) = escapeHtml (trimStart t)"
proof (induction t)
  case Nil
  then show ?case by (simp add: trimStart_def escapeHtml_Nil)
next
  case (Cons c cs)
  show ?case
  proof (cases "isWhiteSpace c")
    case True
    then show ?thesis using Cons escapeHtml_Cons [of c cs] escapeHtml_space [OF True]
      by (simp add: trimStart_def)
  next
    case False
    obtain d ds where e: "escapeHtml [c] = d # ds" "\<not> isWhiteSpace d"
      using escapeHtml_head [of c] False by (cases "escapeHtml [c]") auto
    then show ?thesis using False escapeHtml_Cons [of c cs] by (simp add: trimStart_def)
  qed
qed

lemma toLowerAscii_space: "isWhiteSpace c \<Longrightarrow> toLowerAscii c = c"
  by (auto simp: toLowerAscii_def isWhiteSpace_def word_le_nat_alt)

lemma startsWithIgnoreCase_Cons:
  "startsWithIgnoreCase (q # p) (c # cs) \<longleftrightarrow> toLowerAscii c = q \<and> startsWithIgnoreCase p cs"
  by (auto simp: startsWithIgnoreCase_def)

lemma startsWithIgnoreCase_simps:
  "startsWithIgnoreCase [] t" "\<not> startsWithIgnoreCase (q # p) []"
  by (simp_all add: startsWithIgnoreCase_def)

lemma startsWithIgnoreCase_spaces:
  assumes "list_all isWhiteSpace ws" "list_all (\<lambda>q. \<not> isWhiteSpace q) p"
  shows "startsWithIgnoreCase p (u @ ws) \<longleftrightarrow> startsWithIgnoreCase p u"
  using assms(2)
proof (induction p arbitrary: u)
  case Nil
  then show ?case by (simp add: startsWithIgnoreCase_simps)
next
  case (Cons q p)
  show ?case
  proof (cases u)
    case (Cons c cs)
    with Cons.IH [of cs] Cons.prems show ?thesis by (simp add: startsWithIgnoreCase_Cons)
  next
    case Nil
    have "\<not> startsWithIgnoreCase (q # p) ws"
    proof (cases ws)
      case Nil
      then show ?thesis by (simp add: startsWithIgnoreCase_simps)
    next
      case (Cons w ws')
      then have "isWhiteSpace w" using assms(1) by simp
      then have "toLowerAscii w \<noteq> q" using toLowerAscii_space [of w] Cons.prems by auto
      then show ?thesis using Cons by (simp add: startsWithIgnoreCase_Cons)
    qed
    then show ?thesis using Nil by (simp add: startsWithIgnoreCase_simps)
  qed
qed

lemma startsWithIgnoreCase_trimEnd:
  assumes "list_all (\<lambda>q. \<not> isWhiteSpace q) p"
  shows "startsWithIgnoreCase p (trimEnd u) \<longleftrightarrow> startsWithIgnoreCase p u"
proof -
  obtain ws where ws: "u = trimEnd u @ ws" "list_all isWhiteSpace ws"
    using trimEnd_split by blast
  have "startsWithIgnoreCase p (trimEnd u @ ws) \<longleftrightarrow> startsWithIgnoreCase p (trimEnd u)"
    using ws(2) assms by (rule startsWithIgnoreCase_spaces)
  with ws(1) show ?thesis by simp
qed

lemma startsWithIgnoreCase_escapeHtml:
  assumes "list_all (\<lambda>q. q \<noteq> AMP \<and> q \<noteq> LESS_THAN \<and> q \<noteq> GREATER_THAN \<and> q \<noteq> DQUOTE \<and> q \<noteq> APOS) p"
  shows "startsWithIgnoreCase p (escapeHtml u) \<longleftrightarrow> startsWithIgnoreCase p u"
  using assms
proof (induction p arbitrary: u)
  case Nil
  then show ?case by (simp add: startsWithIgnoreCase_simps)
next
  case (Cons q p)
  show ?case
  proof (cases u)
    case Nil
    then show ?thesis by (simp add: escapeHtml_Nil)
  next
    case u: (Cons c cs)
    have q: "q \<noteq> AMP" "q \<noteq> LESS_THAN" "q \<noteq> GREATER_THAN" "q \<noteq> DQUOTE" "q \<noteq> APOS"
      using Cons.prems by simp_all
    show ?thesis
    proof (cases "c = AMP \<or> c = LESS_THAN \<or> c = GREATER_THAN \<or> c = DQUOTE \<or> c = APOS")
      case True
      then have low: "toLowerAscii c = c"
        by (auto simp: toLowerAscii_def AMP_def LESS_THAN_def GREATER_THAN_def DQUOTE_def APOS_def)
      have "\<exists>ds. escapeHtml [c] = AMP # ds"
        using True
        by (auto simp: escapeHtml_single js_def AMP_def LESS_THAN_def GREATER_THAN_def DQUOTE_def
            APOS_def)
      then obtain ds where e: "escapeHtml [c] = AMP # ds" by blast
      have la: "toLowerAscii AMP = AMP" by (simp add: toLowerAscii_def AMP_def)
      have "\<not> startsWithIgnoreCase (q # p) (escapeHtml u)"
        using escapeHtml_Cons [of c cs] e q la unfolding u by (simp add: startsWithIgnoreCase_Cons)
      moreover have "\<not> startsWithIgnoreCase (q # p) u"
        using True low q unfolding u by (auto simp: startsWithIgnoreCase_Cons)
      ultimately show ?thesis by simp
    next
      case False
      then have "escapeHtml [c] = [c]" by (simp add: escapeHtml_single)
      then show ?thesis
        using escapeHtml_Cons [of c cs] Cons.IH [of cs] Cons.prems unfolding u
        by (simp add: startsWithIgnoreCase_Cons)
    qed
  qed
qed

lemma isNavigableUrl_escaped: "isNavigableUrl (trim (escapeHtml t)) = isNavigableUrl t"
proof -
  have eq: "startsWithIgnoreCase p (trim (escapeHtml t)) \<longleftrightarrow> startsWithIgnoreCase p (trim t)"
    if ws: "list_all (\<lambda>q. \<not> isWhiteSpace q) p"
      and sp: "list_all (\<lambda>q. q \<noteq> AMP \<and> q \<noteq> LESS_THAN \<and> q \<noteq> GREATER_THAN \<and> q \<noteq> DQUOTE \<and> q \<noteq> APOS) p"
    for p
    unfolding trim_def startsWithIgnoreCase_trimEnd [OF ws] trimStart_escapeHtml
      startsWithIgnoreCase_escapeHtml [OF sp] ..
  have ws: "list_all (\<lambda>q. \<not> isWhiteSpace q) (js ''http://'')"
    "list_all (\<lambda>q. \<not> isWhiteSpace q) (js ''https://'')"
    "list_all (\<lambda>q. \<not> isWhiteSpace q) (js ''mailto:'')"
    by (simp_all add: js_def isWhiteSpace_def)
  have sp: "list_all (\<lambda>q. q \<noteq> AMP \<and> q \<noteq> LESS_THAN \<and> q \<noteq> GREATER_THAN \<and> q \<noteq> DQUOTE \<and> q \<noteq> APOS) (js ''http://'')"
    "list_all (\<lambda>q. q \<noteq> AMP \<and> q \<noteq> LESS_THAN \<and> q \<noteq> GREATER_THAN \<and> q \<noteq> DQUOTE \<and> q \<noteq> APOS) (js ''https://'')"
    "list_all (\<lambda>q. q \<noteq> AMP \<and> q \<noteq> LESS_THAN \<and> q \<noteq> GREATER_THAN \<and> q \<noteq> DQUOTE \<and> q \<noteq> APOS) (js ''mailto:'')"
    by (simp_all add: js_def AMP_def LESS_THAN_def GREATER_THAN_def DQUOTE_def APOS_def)
  show ?thesis
    unfolding isNavigableUrl_iff trim_idem
      eq [OF ws(1) sp(1)] eq [OF ws(2) sp(2)] eq [OF ws(3) sp(3)] ..
qed

text \<open>
  The replacement for one pattern, in terms of the raw label and target: a link exactly
  when the raw target is navigable. The label of the plain-text branch and the target of
  both branches pass through \<open>escapeHtml\<close> a second time.
\<close>

lemma linkReplacement_escaped:
  "linkReplacement (escapeHtml label) (escapeHtml target) =
     (if isNavigableUrl target then
        js ''<a href='' @ [DQUOTE] @ escapeHtml (trim (escapeHtml target)) @ [DQUOTE]
          @ js '' target='' @ [DQUOTE] @ js ''_blank'' @ [DQUOTE] @ js '' rel='' @ [DQUOTE]
          @ js ''noopener noreferrer'' @ [DQUOTE] @ js ''>'' @ escapeHtml label @ js ''</a>''
      else
        escapeHtml (escapeHtml label) @ js '' ('' @ escapeHtml (trim (escapeHtml target)) @ js '')'')"
  by (simp add: linkReplacement_def Let_def isNavigableUrl_escaped)


text \<open>The example of the specification: the label becomes a link to the target.\<close>

lemma mdToSafeHtml_example:
  "mdToSafeHtml (js ''See [docs](https://example.com/d) for info'')
     = js ''See <a href='' @ [DQUOTE] @ js ''https://example.com/d'' @ [DQUOTE]
       @ js '' target='' @ [DQUOTE] @ js ''_blank'' @ [DQUOTE] @ js '' rel='' @ [DQUOTE]
       @ js ''noopener noreferrer'' @ [DQUOTE] @ js ''>docs</a> for info''"
  by code_simp

text \<open>
  C3 does not hold of the code. For the popup text \<open>[Q&A](x&y)\<close>, whose target is not
  navigable, the label and the target are escaped twice: the markup is
  \<open>Q&amp;amp;A (x&amp;amp;y)\<close>, which a browser shows as \<open>Q&amp;A (x&amp;y)\<close>, not as the label
  and the literal target. Escaped once, as the claim has it, the markup would be
  \<open>Q&amp;A (x&amp;y)\<close>. The other branch of the callback takes the label as already
  escaped, and does not escape it again.
\<close>

theorem mdToSafeHtml_double_escape:
  "mdToSafeHtml (js ''[Q&A](x&y)'') = js ''Q&amp;amp;A (x&amp;amp;y)''
   \<and> escapeHtml (js ''Q&A'') @ js '' ('' @ escapeHtml (js ''x&y'') @ js '')'' = js ''Q&amp;A (x&amp;y)''"
  by code_simp

text \<open>
  The target of a link is escaped twice as well: an ampersand in a navigable target
  reaches the \<open>href\<close> attribute as \<open>&amp;amp;\<close>.
\<close>

lemma mdToSafeHtml_href_double_escape:
  "mdToSafeHtml (js ''[d](https://e.test/?a=1&b=2)'')
     = js ''<a href='' @ [DQUOTE] @ js ''https://e.test/?a=1&amp;amp;b=2'' @ [DQUOTE]
       @ js '' target='' @ [DQUOTE] @ js ''_blank'' @ [DQUOTE] @ js '' rel='' @ [DQUOTE]
       @ js ''noopener noreferrer'' @ [DQUOTE] @ js ''>d</a>''"
  by code_simp

section \<open>Properties of the popup\<close>

text \<open>
  C5. From a hidden popup, a click on a text marker shows the popup pinned, and a second
  click on the same marker hides it. The same holds when the pointer enters the marker
  before the first click, as it does with a mouse. The marker is an item of the model,
  whose coordinates are finite (\<open>rowsToSections\<close> keeps no other item), so that the marker
  is recognised as the same on the second click.
\<close>

theorem markerClick_twice:
  assumes "popup_mode_of st = Hidden" and "isFinite (x_coord it)" and "isFinite (y_coord it)"
  shows "popup_mode_of (markerClick it st) = ShownPinned
       \<and> popup_mode_of (markerClick it (markerClick it st)) = Hidden
       \<and> popup_mode_of (markerClick it (markerPointerEnter it st)) = ShownPinned
       \<and> popup_mode_of (markerClick it (markerClick it (markerPointerEnter it st))) = Hidden"
proof -
  from assms(2,3) obtain a b where ab: "x_coord it = Num a" "y_coord it = Num b"
    by (cases "x_coord it"; cases "y_coord it") (simp_all add: isFinite_def)
  from assms(1) have h: "hidden st" by (simp add: popup_mode_of_def split: if_splits)
  show ?thesis
    using h ab
    by (simp add: markerClick_def markerPointerEnter_def showPopup_def positionPopupAt_def
        clearHideTimer_def sameMarker_def strictEquals_def hidePopup_def popup_mode_of_def Let_def)
qed

theorem markerClick_twice_witness:
  "popup_mode_of popup_init = Hidden
   \<and> isFinite (x_coord (itemOfRow [js ''B'', js ''call me'', js ''50'', js ''60'']))
   \<and> isFinite (y_coord (itemOfRow [js ''B'', js ''call me'', js ''50'', js ''60'']))
   \<and> popup_mode_of (markerClick (itemOfRow [js ''B'', js ''call me'', js ''50'', js ''60'']) popup_init)
       = ShownPinned
   \<and> popup_mode_of (markerClick (itemOfRow [js ''B'', js ''call me'', js ''50'', js ''60''])
        (markerClick (itemOfRow [js ''B'', js ''call me'', js ''50'', js ''60'']) popup_init)) = Hidden"
proof -
  let ?it = "itemOfRow [js ''B'', js ''call me'', js ''50'', js ''60'']"
  have h1: "popup_mode_of popup_init = Hidden" by code_simp
  have h2: "isFinite (x_coord ?it)" by code_simp
  have h3: "isFinite (y_coord ?it)" by code_simp
  show ?thesis using markerClick_twice [OF h1 h2 h3] h1 h2 h3 by blast
qed

end
